theory Spec2Isabelle
  imports Main "HOL-Library.AList" "HOL-Library.Char_ord" "HOL-Library.List_Lexorder"
begin

section \<open>The term graph of pronto: objects, relations and the store\<close>

text \<open>
  The Python program keeps its terms as objects that point at each other, so the
  embedding has an explicit object heap.  A \<open>Term\<close> object is named by its address; two
  objects with equal fields are still two objects (the class defines neither
  \<open>__eq__\<close> nor \<open>__hash__\<close>, so Python compares and hashes Terms by identity).
  The \<open>relations\<close> attribute of a Term is a reference to a dictionary object: the
  constructor's default argument \<open>relations = {}\<close> is one dictionary shared by every Term
  built without that argument, and the embedding keeps that sharing by giving dictionaries
  addresses of their own.  Lists are kept by value: no code of the two modules makes two
  dictionary entries share one list object.
\<close>

type_synonym addr = nat
type_synonym daddr = nat

datatype error = KeyError | TypeError | AttributeError | RecursionError

text \<open>An element of a relation list: a bare identifier (a Python \<open>str\<close>) or a Term object.\<close>

datatype endpoint = Str string | Ref addr

text \<open>
  A value of the \<open>relations\<close> dictionary is a plain Python list (what the parsers supply)
  or a \<open>TermList\<close> object; both are iterated the same way, they differ in the attributes
  they answer.
\<close>

datatype relval = PyList "endpoint list" | TermList "endpoint list"

fun elems :: "relval \<Rightarrow> endpoint list" where
  "elems (PyList xs) = xs"
| "elems (TermList xs) = xs"

text \<open>\<open>relval.append(x)\<close>: \<open>list.append\<close>, which a TermList forwards to its list unchecked.\<close>

fun append :: "relval \<Rightarrow> endpoint \<Rightarrow> relval" where
  "append (PyList xs) x = PyList (xs @ [x])"
| "append (TermList xs) x = TermList (xs @ [x])"

text \<open>A value of the \<open>other\<close> dictionary: one value, or a list of values for a repeated key.\<close>

datatype meta = Single string | Multi "string list"

record Term =
  cid :: string
  name :: string
  desc :: string
  relations :: daddr
  other :: "(string \<times> meta) list"

text \<open>
  The interpreter state the two modules work on: the ontology's dictionary \<open>self.terms\<close>
  (insertion ordered, as Python dictionaries are), the Term objects, the relation
  dictionaries, the next free Term address, the cache that \<open>functools.lru_cache\<close> keeps for
  \<open>Term.parents\<close>, and the interpreter's recursion limit.
\<close>

record pystate =
  terms :: "(string \<times> addr) list"
  theap :: "addr \<Rightarrow> Term"
  dheap :: "daddr \<Rightarrow> (string \<times> relval) list"
  next_addr :: addr
  parents_cache :: "(addr \<times> endpoint list) list"
  recursion_limit :: nat

text \<open>The dictionary object created once for the default argument \<open>relations = {}\<close>.\<close>

definition default_relations :: daddr where
  "default_relations = 0"

text \<open>\<open>Term(cid, name, desc)\<close> with both defaults; \<open>other\<close> is never written by the modules.\<close>

definition Term_init :: "string \<Rightarrow> string \<Rightarrow> string \<Rightarrow> Term" where
  "Term_init c n d = \<lparr>cid = c, name = n, desc = d, relations = default_relations, other = []\<rparr>"

section \<open>The class TermList\<close>

text \<open>
  What a caller may pass to \<open>TermList(*elements)\<close> as one positional argument: a list, a
  set (given in its iteration order), a tuple, or a single element.
\<close>

datatype arg = ArgList "endpoint list" | ArgSet "endpoint list" | ArgTuple "endpoint list"
  | ArgElem endpoint

text \<open>
  The assignments of \<open>__init__\<close>.  The branch for one argument has an \<open>if\<close> and an \<open>elif\<close>
  and no \<open>else\<close>: for one argument that is neither a list nor a set nothing is assigned to
  \<open>self.terms\<close> (the result \<open>None\<close> here).
\<close>

fun init_terms :: "arg list \<Rightarrow> arg list option" where
  "init_terms [] = Some []"
| "init_terms [ArgList xs] = Some (map ArgElem xs)"
| "init_terms [ArgSet xs] = Some (map ArgElem xs)"
| "init_terms [x] = None"
| "init_terms elements = Some elements"

text \<open>
  Reading \<open>self.terms\<close>.  When the attribute was assigned the read returns it.  When it was
  not, Python calls \<open>__getattr__('terms')\<close>; \<open>'terms'\<close> is in neither list of names there,
  so the last branch evaluates \<open>getattr(self.terms, attr)\<close>, which reads \<open>self.terms\<close> again,
  one frame deeper.  The first argument is the number of frames the interpreter still
  allows; at none it raises \<open>RecursionError\<close>.
\<close>

fun getattr_terms :: "nat \<Rightarrow> arg list option \<Rightarrow> error + arg list" where
  "getattr_terms limit (Some ts) = Inr ts"
| "getattr_terms 0 None = Inl RecursionError"
| "getattr_terms (Suc limit) None = getattr_terms limit None"

fun isinstance_Term :: "arg \<Rightarrow> bool" where
  "isinstance_Term (ArgElem (Ref a)) = True"
| "isinstance_Term x = False"

definition check_content :: "nat \<Rightarrow> arg list option \<Rightarrow> error + arg list" where
  "check_content limit st =
     (case getattr_terms limit st of
        Inl e \<Rightarrow> Inl e
      | Inr ts \<Rightarrow> if list_all isinstance_Term ts then Inr ts else Inl TypeError)"

fun arg_elems :: "arg list \<Rightarrow> endpoint list" where
  "arg_elems [] = []"
| "arg_elems (ArgElem e # xs) = e # arg_elems xs"
| "arg_elems (x # xs) = arg_elems xs"

text \<open>\<open>TermList(*elements)\<close>: the elements of the new object, or the exception raised.\<close>

definition TermList_init :: "nat \<Rightarrow> arg list \<Rightarrow> error + endpoint list" where
  "TermList_init limit elements =
     (case check_content limit (init_terms elements) of
        Inl e \<Rightarrow> Inl e
      | Inr ts \<Rightarrow> Inr (arg_elems ts))"

text \<open>
  The shortcut \<open>termlist.id\<close> of \<open>__getattr__\<close>: \<open>[getattr(x, 'id') for x in self.terms]\<close>.
  A \<open>str\<close> has no attribute \<open>id\<close>.
\<close>

fun TermList_id :: "pystate \<Rightarrow> endpoint list \<Rightarrow> error + string list" where
  "TermList_id s [] = Inr []"
| "TermList_id s (Str x # xs) = Inl AttributeError"
| "TermList_id s (Ref a # xs) =
     (case TermList_id s xs of Inl e \<Rightarrow> Inl e | Inr ids \<Rightarrow> Inr (cid (theap s a) # ids))"

section \<open>The class Term\<close>

text \<open>
  The loop shared by the two properties: for each kind of the tuple that is a key of
  \<open>self.relations\<close>, extend the result by the list stored there.
\<close>

definition extend_kinds :: "pystate \<Rightarrow> addr \<Rightarrow> string list \<Rightarrow> endpoint list \<Rightarrow> endpoint list" where
  "extend_kinds s a kinds acc =
     foldl (\<lambda>acc k. case map_of (dheap s (relations (theap s a))) k of
                        None \<Rightarrow> acc
                      | Some rv \<Rightarrow> acc @ elems rv) acc kinds"

text \<open>The property \<open>children\<close>: computed at every access (its memoizer is commented out).\<close>

definition children :: "pystate \<Rightarrow> addr \<Rightarrow> error + endpoint list" where
  "children s a =
     (case TermList_init (recursion_limit s) [] of
        Inl e \<Rightarrow> Inl e
      | Inr c \<Rightarrow> Inr (extend_kinds s a [''has_part'', ''can_be''] c))"

text \<open>The body of the property \<open>parents\<close>, which \<open>lru_cache\<close> wraps.\<close>

definition parents_body :: "pystate \<Rightarrow> addr \<Rightarrow> error + endpoint list" where
  "parents_body s a =
     (case TermList_init (recursion_limit s) [] of
        Inl e \<Rightarrow> Inl e
      | Inr p \<Rightarrow> Inr (extend_kinds s a [''is_a'', ''is_part'', ''part_of''] p))"

text \<open>
  The property \<open>parents\<close> as decorated with \<open>functools.lru_cache(None)\<close>: the cache is keyed
  by the Term object and has no bound; a hit returns the stored result without running
  the body, a miss runs the body and stores what it returned.
\<close>

definition parents :: "pystate \<Rightarrow> addr \<Rightarrow> (error + endpoint list) \<times> pystate" where
  "parents s a =
     (case map_of (parents_cache s) a of
        Some v \<Rightarrow> (Inr v, s)
      | None \<Rightarrow>
          (case parents_body s a of
             Inl e \<Rightarrow> (Inl e, s)
           | Inr v \<Rightarrow> (Inr v, s\<lparr>parents_cache := (a, v) # parents_cache s\<rparr>)))"

text \<open>
  \<open>rchildren(level, intermediate)\<close>.  The first argument bounds how deep the calls of
  \<open>rchildren\<close> may nest; the value \<open>None\<close> says that this bound does not suffice.  It
  is not the interpreter's recursion limit: one level of nesting costs the interpreter
  several frames (the call, the property \<open>children\<close>, the TermList constructor and its
  check) on top of the caller's.  A run of the Python method returns what the model returns
  at a bound that suffices, when the recursion limit allows that depth; where no bound
  suffices the recursion has no end, and Python stops it with \<open>RecursionError\<close> at
  whatever limit is set.  The test \<open>if self.children:\<close> is always true: a TermList
  defines neither \<open>__bool__\<close> nor \<open>__len__\<close>, and special methods are not looked up
  through \<open>__getattr__\<close>.  A child that is a \<open>str\<close> has no method \<open>rchildren\<close>.  The
  result is \<open>TermList(set(rchildren))\<close>; a Python set of Terms keeps one entry per object.
\<close>

fun rchildren :: "nat \<Rightarrow> pystate \<Rightarrow> addr \<Rightarrow> int \<Rightarrow> bool \<Rightarrow> (error + endpoint list) option"
  and rchildren_loop ::
    "nat \<Rightarrow> pystate \<Rightarrow> endpoint list \<Rightarrow> int \<Rightarrow> bool \<Rightarrow> endpoint list \<Rightarrow>
       (error + endpoint list) option"
where
  "rchildren 0 s a level intermediate = None"
| "rchildren (Suc n) s a level intermediate =
     (if level = 0 then Some (Inr [])
      else case children s a of
             Inl e \<Rightarrow> Some (Inl e)
           | Inr cs \<Rightarrow>
               (case rchildren_loop n s cs (level - 1) intermediate
                       (if intermediate \<or> level = 1 then cs else []) of
                  None \<Rightarrow> None
                | Some (Inl e) \<Rightarrow> Some (Inl e)
                | Some (Inr acc) \<Rightarrow>
                    Some (TermList_init (recursion_limit s) [ArgSet (remdups acc)])))"
| "rchildren_loop n s [] level intermediate acc = Some (Inr acc)"
| "rchildren_loop n s (Str x # cs) level intermediate acc = Some (Inl AttributeError)"
| "rchildren_loop n s (Ref c # cs) level intermediate acc =
     (case rchildren n s c level intermediate of
        None \<Rightarrow> None
      | Some (Inl e) \<Rightarrow> Some (Inl e)
      | Some (Inr r) \<Rightarrow> rchildren_loop n s cs level intermediate (acc @ r))"

section \<open>The class Ontology\<close>

text \<open>
  \<open>__getitem__\<close> is \<open>self.terms[item]\<close>.  The keys of \<open>self.terms\<close> are strings; a Term
  object is hashable (by identity) and equal to no string, so it is never found.
\<close>

fun getitem :: "pystate \<Rightarrow> endpoint \<Rightarrow> error + addr" where
  "getitem s (Str x) = (case map_of (terms s) x of None \<Rightarrow> Inl KeyError | Some a \<Rightarrow> Inr a)"
| "getitem s (Ref a) = Inl KeyError"

text \<open>\<open>__contains__\<close>: a Term is looked up by its \<open>id\<close>, a string by itself.\<close>

fun contains :: "pystate \<Rightarrow> arg \<Rightarrow> error + bool" where
  "contains s (ArgElem (Ref a)) = Inr (cid (theap s a) \<in> set (map fst (terms s)))"
| "contains s (ArgElem (Str x)) = Inr (x \<in> set (map fst (terms s)))"
| "contains s x = Inl TypeError"

text \<open>
  \<open>__iter__\<close> and \<open>__next__\<close>: the terms in ascending order of their keys.  The keys of a
  dictionary are distinct, so sorting the items by key is sorting the keys and looking
  each one up.
\<close>

definition iter :: "pystate \<Rightarrow> addr list" where
  "iter s = map snd (sort_key fst (terms s))"

text \<open>Assignment \<open>d[k] = v\<close> on the dictionary object at \<open>d\<close>.\<close>

definition setitem :: "pystate \<Rightarrow> daddr \<Rightarrow> string \<Rightarrow> relval \<Rightarrow> pystate" where
  "setitem s d k v = s\<lparr>dheap := (dheap s)(d := AList.update k v (dheap s d))\<rparr>"

subsection \<open>The adoption pass\<close>

text \<open>The first loop of \<open>_adopt\<close>, for one term: the triples \<open>(parent, rel, term.id)\<close>.\<close>

definition inverse_of :: "pystate \<Rightarrow> addr \<Rightarrow> string \<Rightarrow> string \<Rightarrow> (endpoint \<times> string \<times> string) list" where
  "inverse_of s t forward rel =
     (case map_of (dheap s (relations (theap s t))) forward of
        None \<Rightarrow> []
      | Some ps \<Rightarrow> map (\<lambda>parent. (parent, rel, cid (theap s t))) (elems ps))"

definition collect :: "pystate \<Rightarrow> addr \<Rightarrow> (endpoint \<times> string \<times> string) list" where
  "collect s t =
     inverse_of s t ''is_a'' ''can_be'' @
     inverse_of s t ''part_of'' ''has_part'' @
     inverse_of s t ''is_part'' ''part_of''"

definition relationships :: "pystate \<Rightarrow> (endpoint \<times> string \<times> string) list" where
  "relationships s = concat (map (collect s) (iter s))"

text \<open>
  The body of the second loop.  \<open>parent in self\<close> decides whether anything is recorded;
  \<open>self[parent]\<close> then looks the parent up (a parent that is a Term object passes the
  membership test by its id and fails the lookup).
\<close>

definition adopt_step :: "pystate \<Rightarrow> endpoint \<times> string \<times> string \<Rightarrow> error + pystate" where
  "adopt_step s r =
     (case r of (parent, rel, child) \<Rightarrow>
        (case contains s (ArgElem parent) of
           Inl e \<Rightarrow> Inl e
         | Inr False \<Rightarrow> Inr s
         | Inr True \<Rightarrow>
             (case getitem s parent of
                Inl e \<Rightarrow> Inl e
              | Inr p \<Rightarrow>
                  (case (if rel \<in> set (map fst (dheap s (relations (theap s p)))) then Inr s
                         else case TermList_init (recursion_limit s) [] of
                                Inl e \<Rightarrow> Inl e
                              | Inr ts \<Rightarrow> Inr (setitem s (relations (theap s p)) rel (TermList ts))) of
                     Inl e \<Rightarrow> Inl e
                   | Inr s1 \<Rightarrow>
                       (case map_of (dheap s1 (relations (theap s1 p))) rel of
                          None \<Rightarrow> Inl KeyError
                        | Some rv \<Rightarrow>
                            Inr (setitem s1 (relations (theap s1 p)) rel (append rv (Str child))))))))"

fun adopt_loop :: "pystate \<Rightarrow> (endpoint \<times> string \<times> string) list \<Rightarrow> error + pystate" where
  "adopt_loop s [] = Inr s"
| "adopt_loop s (r # rs) = (case adopt_step s r of Inl e \<Rightarrow> Inl e | Inr s1 \<Rightarrow> adopt_loop s1 rs)"

definition adopt :: "pystate \<Rightarrow> error + pystate" where
  "adopt s = adopt_loop s (relationships s)"

subsection \<open>The reference-resolution pass\<close>

text \<open>
  One element of the list comprehension of \<open>_reference\<close>:
  \<open>self.terms[x] if x in self.terms.keys() else Term(x, '', '') if not isinstance(x, Term) else x\<close>.
  A new Term object takes the next free address.
\<close>

fun resolve :: "pystate \<Rightarrow> endpoint \<Rightarrow> endpoint \<times> pystate" where
  "resolve s (Str x) =
     (case map_of (terms s) x of
        Some a \<Rightarrow> (Ref a, s)
      | None \<Rightarrow>
          (Ref (next_addr s),
           s\<lparr>theap := (theap s)(next_addr s := Term_init x [] []), next_addr := Suc (next_addr s)\<rparr>))"
| "resolve s (Ref a) = (Ref a, s)"

fun resolve_all :: "pystate \<Rightarrow> endpoint list \<Rightarrow> endpoint list \<times> pystate" where
  "resolve_all s [] = ([], s)"
| "resolve_all s (x # xs) =
     (case resolve s x of (y, s1) \<Rightarrow>
        (case resolve_all s1 xs of (ys, s2) \<Rightarrow> (y # ys, s2)))"

text \<open>
  The inner loop over \<open>termval.relations.items()\<close> for the dictionary at \<open>d\<close>: only the value
  of the key at hand is assigned, so the items are those the dictionary had when the loop
  started.
\<close>

fun reference_rels :: "pystate \<Rightarrow> daddr \<Rightarrow> (string \<times> relval) list \<Rightarrow> error + pystate" where
  "reference_rels s d [] = Inr s"
| "reference_rels s d ((relkey, relval) # rest) =
     (case resolve_all s (elems relval) of (relvalref, s1) \<Rightarrow>
        (case TermList_init (recursion_limit s1) [ArgList relvalref] of
           Inl e \<Rightarrow> Inl e
         | Inr ts \<Rightarrow> reference_rels (setitem s1 d relkey (TermList ts)) d rest))"

fun reference_terms :: "pystate \<Rightarrow> (string \<times> addr) list \<Rightarrow> error + pystate" where
  "reference_terms s [] = Inr s"
| "reference_terms s ((termkey, termval) # rest) =
     (case reference_rels s (relations (theap s termval)) (dheap s (relations (theap s termval))) of
        Inl e \<Rightarrow> Inl e
      | Inr s1 \<Rightarrow> reference_terms s1 rest)"

definition reference :: "pystate \<Rightarrow> error + pystate" where
  "reference s = reference_terms s (terms s)"

subsection \<open>The dereferenced JSON form\<close>

datatype json = JString string | JArray "json list" | JObject "(string \<times> json) list"

text \<open>\<open>sort_keys=True\<close>: the encoder writes the items of every dictionary in key order.\<close>

primrec sort_keys :: "json \<Rightarrow> json" where
  "sort_keys (JString x) = JString x"
| "sort_keys (JArray xs) = JArray (map sort_keys xs)"
| "sort_keys (JObject kvs) = JObject (sort_key fst (map (map_prod id sort_keys) kvs))"

fun meta_json :: "meta \<Rightarrow> json" where
  "meta_json (Single v) = JString v"
| "meta_json (Multi vs) = JArray (map JString vs)"

text \<open>
  The dictionary comprehension \<open>{k: v.id for k, v in self.relations.items()}\<close>: a plain
  list has no attribute \<open>id\<close>, a TermList answers with the ids of its elements.
\<close>

fun relations_ids :: "pystate \<Rightarrow> (string \<times> relval) list \<Rightarrow> error + (string \<times> json) list" where
  "relations_ids s [] = Inr []"
| "relations_ids s ((k, PyList xs) # rest) = Inl AttributeError"
| "relations_ids s ((k, TermList xs) # rest) =
     (case TermList_id s xs of
        Inl e \<Rightarrow> Inl e
      | Inr ids \<Rightarrow>
          (case relations_ids s rest of
             Inl e \<Rightarrow> Inl e
           | Inr js \<Rightarrow> Inr ((k, JArray (map JString ids)) # js)))"

text \<open>The property \<open>__deref__\<close>.\<close>

definition deref :: "pystate \<Rightarrow> addr \<Rightarrow> error + json" where
  "deref s a =
     (case relations_ids s (dheap s (relations (theap s a))) of
        Inl e \<Rightarrow> Inl e
      | Inr rels \<Rightarrow>
          Inr (JObject
            [(''id'', JString (cid (theap s a))),
             (''name'', JString (name (theap s a))),
             (''other'', JObject (map (map_prod id meta_json) (other (theap s a)))),
             (''desc'', JString (desc (theap s a))),
             (''relations'', JObject rels)]))"

fun deref_all :: "pystate \<Rightarrow> (string \<times> addr) list \<Rightarrow> error + (string \<times> json) list" where
  "deref_all s [] = Inr []"
| "deref_all s ((k, a) # rest) =
     (case deref s a of
        Inl e \<Rightarrow> Inl e
      | Inr j \<Rightarrow> (case deref_all s rest of Inl e \<Rightarrow> Inl e | Inr js \<Rightarrow> Inr ((k, j) # js)))"

text \<open>
  The property \<open>json\<close>: \<open>json.dumps(self.terms, sort_keys=True, default=lambda o: o.__deref__)\<close>.
  The value here is the tree the encoder writes out; its layout as text (\<open>indent=4\<close>) is
  the library's.
\<close>

definition json_of :: "pystate \<Rightarrow> error + json" where
  "json_of s =
     (case deref_all s (terms s) of
        Inl e \<Rightarrow> Inl e
      | Inr js \<Rightarrow> Inr (sort_keys (JObject js)))"

section \<open>Concrete stores\<close>

text \<open>An interpreter with no Term object yet and every dictionary empty.\<close>

definition no_terms :: "addr \<Rightarrow> Term" where
  "no_terms = (\<lambda>a. Term_init [] [] [])"

definition no_relations :: "daddr \<Rightarrow> (string \<times> relval) list" where
  "no_relations = (\<lambda>d. [])"

definition mk_Term :: "string \<Rightarrow> string \<Rightarrow> daddr \<Rightarrow> Term" where
  "mk_Term c n d = \<lparr>cid = c, name = n, desc = [], relations = d, other = []\<rparr>"

text \<open>
  The scenario of the specification: \<open>A\<close> with \<open>is_a: ['B']\<close> and \<open>B\<close> with no relations,
  each Term with a dictionary of its own, as the parser left them; then the state after
  \<open>_adopt\<close>, and the state after \<open>_reference\<close>.
\<close>

definition store_AB :: pystate where
  "store_AB =
     \<lparr>terms = [(''A'', 0), (''B'', 1)],
      theap = no_terms(0 := mk_Term ''A'' ''a'' 1, 1 := mk_Term ''B'' ''b'' 2),
      dheap = no_relations(1 := [(''is_a'', PyList [Str ''B''])]),
      next_addr = 2, parents_cache = [], recursion_limit = 1000\<rparr>"

definition store_AB_adopted :: pystate where
  "store_AB_adopted =
     \<lparr>terms = [(''A'', 0), (''B'', 1)],
      theap = no_terms(0 := mk_Term ''A'' ''a'' 1, 1 := mk_Term ''B'' ''b'' 2),
      dheap = no_relations(1 := [(''is_a'', PyList [Str ''B''])],
                           2 := [(''can_be'', TermList [Str ''A''])]),
      next_addr = 2, parents_cache = [], recursion_limit = 1000\<rparr>"

definition store_AB_resolved :: pystate where
  "store_AB_resolved =
     \<lparr>terms = [(''A'', 0), (''B'', 1)],
      theap = no_terms(0 := mk_Term ''A'' ''a'' 1, 1 := mk_Term ''B'' ''b'' 2),
      dheap = no_relations(1 := [(''is_a'', TermList [Ref 1])],
                           2 := [(''can_be'', TermList [Ref 0])]),
      next_addr = 2, parents_cache = [], recursion_limit = 1000\<rparr>"

text \<open>
  The scenario after \<open>_adopt\<close> once \<open>A.parents\<close> has been read, and that state after
  \<open>_reference\<close>.
\<close>

definition store_AB_cached :: pystate where
  "store_AB_cached = store_AB_adopted\<lparr>parents_cache := [(0, [Str ''B''])]\<rparr>"

definition store_AB_cached_resolved :: pystate where
  "store_AB_cached_resolved = store_AB_resolved\<lparr>parents_cache := [(0, [Str ''B''])]\<rparr>"

text \<open>
  A store whose only term names a parent that is not in the store, and the state after
  \<open>_reference\<close>: the object at 1 is the placeholder for \<open>B\<close>.
\<close>

definition store_dangling :: pystate where
  "store_dangling =
     \<lparr>terms = [(''A'', 0)],
      theap = no_terms(0 := mk_Term ''A'' ''a'' 1),
      dheap = no_relations(1 := [(''is_a'', PyList [Str ''B''])]),
      next_addr = 1, parents_cache = [], recursion_limit = 1000\<rparr>"

definition store_dangling_resolved :: pystate where
  "store_dangling_resolved =
     \<lparr>terms = [(''A'', 0)],
      theap = no_terms(0 := mk_Term ''A'' ''a'' 1,
        1 := \<lparr>cid = ''B'', name = [], desc = [], relations = default_relations, other = []\<rparr>),
      dheap = no_relations(1 := [(''is_a'', TermList [Ref 1])]),
      next_addr = 2, parents_cache = [], recursion_limit = 1000\<rparr>"

text \<open>
  A term that names the same missing identifier under both kinds of child relation, and
  the state after \<open>_reference\<close>: one placeholder object for each occurrence of \<open>X\<close>.
\<close>

definition store_twice :: pystate where
  "store_twice =
     \<lparr>terms = [(''A'', 0)],
      theap = no_terms(0 := mk_Term ''A'' ''a'' 1),
      dheap = no_relations(1 := [(''has_part'', PyList [Str ''X'']), (''can_be'', PyList [Str ''X''])]),
      next_addr = 1, parents_cache = [], recursion_limit = 1000\<rparr>"

definition store_twice_resolved :: pystate where
  "store_twice_resolved =
     \<lparr>terms = [(''A'', 0)],
      theap = no_terms(0 := mk_Term ''A'' ''a'' 1,
        1 := \<lparr>cid = ''X'', name = [], desc = [], relations = default_relations, other = []\<rparr>,
        2 := \<lparr>cid = ''X'', name = [], desc = [], relations = default_relations, other = []\<rparr>),
      dheap = no_relations(1 := [(''has_part'', TermList [Ref 1]), (''can_be'', TermList [Ref 2])]),
      next_addr = 3, parents_cache = [], recursion_limit = 1000\<rparr>"



definition store_cycle_resolved :: pystate where
  "store_cycle_resolved =
     \<lparr>terms = [(''A'', 0), (''B'', 1)],
      theap = no_terms(0 := mk_Term ''A'' ''a'' 1, 1 := mk_Term ''B'' ''b'' 2),
      dheap = no_relations(1 := [(''part_of'', TermList [Ref 1]), (''has_part'', TermList [Ref 1])],
                           2 := [(''part_of'', TermList [Ref 0]), (''has_part'', TermList [Ref 0])]),
      next_addr = 2, parents_cache = [], recursion_limit = 1000\<rparr>"


section \<open>Predicates used in the statements\<close>

text \<open>\<open>isinstance(x, list)\<close> and \<open>isinstance(x, set)\<close> for a constructor argument.\<close>

fun isinstance_list :: "arg \<Rightarrow> bool" where
  "isinstance_list (ArgList xs) = True"
| "isinstance_list x = False"

fun isinstance_set :: "arg \<Rightarrow> bool" where
  "isinstance_set (ArgSet xs) = True"
| "isinstance_set x = False"

text \<open>\<open>isinstance(x, Term)\<close> for an element of a relation list.\<close>

fun is_Term :: "endpoint \<Rightarrow> bool" where
  "is_Term (Ref a) = True"
| "is_Term (Str x) = False"

text \<open>
  What Python guarantees of the state by construction: a reference held by the store
  names an existing object, and the keys of a dictionary are distinct.
\<close>

definition valid_store :: "pystate \<Rightarrow> bool" where
  "valid_store s \<longleftrightarrow>
     list_all (\<lambda>ka. snd ka < next_addr s) (terms s) \<and>
     distinct (map fst (terms s)) \<and>
     (\<forall>d. distinct (map fst (dheap s d)))"

text \<open>
  What the list comprehension of \<open>_reference\<close> makes of one element, between the state \<open>s\<close>
  before the pass and the state \<open>s'\<close> after it: a Term object stays; an identifier that is
  a key of the store becomes the store's Term; any other identifier becomes a Term object
  that did not exist before the pass, whose \<open>id\<close> is that identifier, whose \<open>name\<close> and
  \<open>desc\<close> are the empty string, and whose \<open>relations\<close> and \<open>other\<close> are the constructor's
  defaults.
\<close>

fun resolved_to :: "pystate \<Rightarrow> pystate \<Rightarrow> endpoint \<Rightarrow> endpoint \<Rightarrow> bool" where
  "resolved_to s s' (Ref a) e = (e = Ref a)"
| "resolved_to s s' (Str x) e =
     (case map_of (terms s) x of
        Some a \<Rightarrow> e = Ref a
      | None \<Rightarrow>
          (case e of
             Str y \<Rightarrow> False
           | Ref p \<Rightarrow>
               next_addr s \<le> p \<and> p < next_addr s' \<and>
               theap s' p =
                 \<lparr>cid = x, name = [], desc = [], relations = default_relations, other = []\<rparr>))"

text \<open>The Term heap only grows: objects that exist keep their fields.\<close>

definition grows :: "pystate \<Rightarrow> pystate \<Rightarrow> bool" where
  "grows s s' \<longleftrightarrow> next_addr s \<le> next_addr s' \<and> (\<forall>a<next_addr s. theap s' a = theap s a)"

text \<open>The parts of the state the resolution pass never writes.\<close>

definition same_store :: "pystate \<Rightarrow> pystate \<Rightarrow> bool" where
  "same_store s s' \<longleftrightarrow>
     terms s' = terms s \<and> parents_cache s' = parents_cache s \<and>
     recursion_limit s' = recursion_limit s"

text \<open>
  The entry \<open>k\<close> of the dictionary at \<open>d\<close> holds a TermList that resolves, element by
  element, the list it held in \<open>s0\<close>.
\<close>

definition entry_done :: "pystate \<Rightarrow> pystate \<Rightarrow> daddr \<Rightarrow> string \<Rightarrow> bool" where
  "entry_done s0 s d k \<longleftrightarrow>
     (\<exists>old refs. map_of (dheap s0 d) k = Some old \<and> map_of (dheap s d) k = Some (TermList refs) \<and>
        list_all2 (resolved_to s0 s) (elems old) refs)"

text \<open>
  The invariant of the loops of \<open>_reference\<close> started in \<open>s0\<close>: no key is added or removed,
  and every entry is either untouched or resolved.
\<close>

definition ref_inv :: "pystate \<Rightarrow> pystate \<Rightarrow> bool" where
  "ref_inv s0 s \<longleftrightarrow>
     same_store s0 s \<and> grows s0 s \<and>
     (\<forall>d. map fst (dheap s d) = map fst (dheap s0 d)) \<and>
     (\<forall>d k. map_of (dheap s d) k = map_of (dheap s0 d) k \<or> entry_done s0 s d k)"

text \<open>
  A relation value whose every element is a Term object held in a TermList; a store is
  resolved when that is so for every value of every term it holds.
\<close>

fun resolved_value :: "relval \<Rightarrow> bool" where
  "resolved_value (PyList xs) = False"
| "resolved_value (TermList xs) = list_all is_Term xs"

definition resolved :: "pystate \<Rightarrow> bool" where
  "resolved s \<longleftrightarrow>
     list_all (\<lambda>ka. list_all (\<lambda>kv. resolved_value (snd kv)) (dheap s (relations (theap s (snd ka)))))
       (terms s)"

text \<open>The elements a term holds under one relation kind (none when the kind is no key).\<close>

definition edges :: "pystate \<Rightarrow> addr \<Rightarrow> string \<Rightarrow> endpoint list" where
  "edges s a kind =
     (case map_of (dheap s (relations (theap s a))) kind of None \<Rightarrow> [] | Some rv \<Rightarrow> elems rv)"

text \<open>The children of a term, as a list: what the property \<open>children\<close> returns.\<close>

definition children_of :: "pystate \<Rightarrow> addr \<Rightarrow> endpoint list" where
  "children_of s a = extend_kinds s a [''has_part'', ''can_be''] []"

text \<open>The identifier an endpoint stands for: the \<open>id\<close> of a Term object, or the string itself.\<close>

fun endpoint_id :: "pystate \<Rightarrow> endpoint \<Rightarrow> string" where
  "endpoint_id s (Ref a) = cid (theap s a)"
| "endpoint_id s (Str x) = x"

text \<open>
  The dereferenced form of one term in the words of the specification, with the key the
  code writes for the description: the five fields in key order, \<open>other\<close> as it is, and
  \<open>relations\<close> mapping each kind to the list of the identifiers of its endpoints.
\<close>

definition term_json :: "pystate \<Rightarrow> addr \<Rightarrow> json" where
  "term_json s a =
     JObject
       [(''desc'', JString (desc (theap s a))),
        (''id'', JString (cid (theap s a))),
        (''name'', JString (name (theap s a))),
        (''other'', JObject (sort_key fst (map (map_prod id meta_json) (other (theap s a))))),
        (''relations'',
           JObject (sort_key fst
             (map (\<lambda>kv. (fst kv, JArray (map (\<lambda>e. JString (endpoint_id s e)) (elems (snd kv)))))
                (dheap s (relations (theap s a))))))]"

text \<open>The keys of a JSON object.\<close>

fun fields :: "json \<Rightarrow> string list" where
  "fields (JObject kvs) = map fst kvs"
| "fields j = []"

text \<open>\<open>d\<close> is reached from \<open>a\<close> by \<open>k\<close> steps, each from a term to one of its children.\<close>

inductive path :: "pystate \<Rightarrow> addr \<Rightarrow> nat \<Rightarrow> addr \<Rightarrow> bool" for s :: pystate where
  one: "Ref d \<in> set (children_of s a) \<Longrightarrow> path s a (Suc 0) d"
| more: "Ref b \<in> set (children_of s a) \<Longrightarrow> path s b k d \<Longrightarrow> path s a (Suc k) d"

text \<open>The descendants of a term, and the part of the graph a traversal from it can see.\<close>

definition descendant :: "pystate \<Rightarrow> addr \<Rightarrow> addr \<Rightarrow> bool" where
  "descendant s a d \<longleftrightarrow> (\<exists>k. path s a k d)"

definition below :: "pystate \<Rightarrow> addr \<Rightarrow> addr \<Rightarrow> bool" where
  "below s a b \<longleftrightarrow> b = a \<or> descendant s a b"

text \<open>
  The lengths of path whose end \<open>rchildren(level, intermediate)\<close> puts into its list: with
  \<open>intermediate\<close> every length up to the bound (every length when the bound is negative),
  without it the length \<open>level\<close> alone.
\<close>

definition collected :: "int \<Rightarrow> bool \<Rightarrow> nat \<Rightarrow> bool" where
  "collected level intermediate k \<longleftrightarrow>
     (if intermediate then level < 0 \<or> int k \<le> level else int k = level)"




section \<open>TermList construction\<close>

lemma TermList_init_empty [simp]: "TermList_init limit [] = Inr []"
  by (simp add: TermList_init_def check_content_def)

lemma arg_elems_map [simp]: "arg_elems (map ArgElem xs) = xs"
  by (induction xs) simp_all

lemma getattr_terms_unassigned: "getattr_terms limit None = Inl RecursionError"
  by (induction limit) simp_all

lemma init_terms_one:
  "\<not> isinstance_list x \<Longrightarrow> \<not> isinstance_set x \<Longrightarrow> init_terms [x] = None"
  by (cases x) simp_all

lemma init_terms_many: "init_terms (x # y # zs) = Some (x # y # zs)"
  by (cases x) simp_all

text \<open>
  Claim C10.  A TermList built from exactly one argument that is neither a list nor a set
  (a single Term, a string, a tuple) gets no \<open>terms\<close> attribute, and the constructor
  fails: the read of \<open>self.terms\<close> in \<open>_check_content\<close> re-enters \<open>__getattr__\<close> until the
  interpreter gives up, whatever its recursion limit.  Every other shape (no argument, one
  list, one set, two or more arguments) assigns the attribute.
\<close>

theorem TermList_init_one_unsupported:
  assumes "\<not> isinstance_list x" and "\<not> isinstance_set x"
  shows "init_terms [x] = None \<and> TermList_init limit [x] = Inl RecursionError \<and>
         init_terms [] \<noteq> None \<and> init_terms [ArgList xs] \<noteq> None \<and>
         init_terms [ArgSet xs] \<noteq> None \<and> init_terms (y # z # zs) \<noteq> None"
  using assms
  by (simp add: init_terms_one init_terms_many TermList_init_def check_content_def
      getattr_terms_unassigned)

theorem TermList_init_one_unsupported_witness:
  "init_terms [ArgElem (Ref 0)] = None \<and>
   TermList_init 1000 [ArgElem (Ref 0)] = Inl RecursionError \<and>
   init_terms [ArgTuple [Ref 0, Ref 1]] = None \<and>
   TermList_init 1000 [ArgTuple [Ref 0, Ref 1]] = Inl RecursionError"
  using TermList_init_one_unsupported [of "ArgElem (Ref 0)" 1000]
    TermList_init_one_unsupported [of "ArgTuple [Ref 0, Ref 1]" 1000]
  by simp

section \<open>The reference-resolution pass\<close>

lemma grows_refl [simp]: "grows s s"
  by (simp add: grows_def)

lemma grows_trans: "grows s s1 \<Longrightarrow> grows s1 s2 \<Longrightarrow> grows s s2"
  by (auto simp: grows_def)

lemma same_store_refl [simp]: "same_store s s"
  by (simp add: same_store_def)

lemma same_store_trans: "same_store s s1 \<Longrightarrow> same_store s1 s2 \<Longrightarrow> same_store s s2"
  by (auto simp: same_store_def)

lemma isinstance_Term_elem [simp]: "isinstance_Term (ArgElem e) = is_Term e"
  by (cases e) simp_all

lemma TermList_init_list:
  "TermList_init limit [ArgList xs] = (if list_all is_Term xs then Inr xs else Inl TypeError)"
  by (simp add: TermList_init_def check_content_def list_all_iff)

lemma resolved_to_is_Term: "resolved_to s s' e e' \<Longrightarrow> is_Term e'"
  by (cases e; cases e') (auto split: option.splits)

lemma resolved_to_all_Term: "list_all2 (resolved_to s s') es es' \<Longrightarrow> list_all is_Term es'"
  by (induction rule: list_all2_induct) (auto dest: resolved_to_is_Term)

lemma resolved_to_mono:
  assumes "resolved_to s s1 e e'" "same_store s0 s" "grows s0 s" "grows s1 s2"
  shows "resolved_to s0 s2 e e'"
  using assms
  by (cases e; cases e') (auto simp: grows_def same_store_def split: option.splits)

lemma resolve_props:
  assumes "resolve s e = (e', s')"
  shows "same_store s s' \<and> dheap s' = dheap s \<and> grows s s' \<and> resolved_to s s' e e'"
  using assms
  by (cases e) (auto simp: same_store_def grows_def Term_init_def split: option.splits)

lemma resolve_all_props:
  "resolve_all s es = (es', s') \<Longrightarrow>
     same_store s s' \<and> dheap s' = dheap s \<and> grows s s' \<and>
     list_all2 (resolved_to s s') es es'"
proof (induction es arbitrary: s es' s')
  case Nil
  then show ?case by simp
next
  case (Cons x xs)
  obtain y s1 where r1: "resolve s x = (y, s1)" by (cases "resolve s x")
  obtain ys s2 where r2: "resolve_all s1 xs = (ys, s2)" by (cases "resolve_all s1 xs")
  from Cons.prems r1 r2 have eq: "es' = y # ys" "s' = s2" by simp_all
  from resolve_props [OF r1] have p1: "same_store s s1" "dheap s1 = dheap s" "grows s s1"
    "resolved_to s s1 x y" by simp_all
  from Cons.IH [OF r2] have p2: "same_store s1 s2" "dheap s2 = dheap s1" "grows s1 s2"
    "list_all2 (resolved_to s1 s2) xs ys" by simp_all
  have "resolved_to s s2 x y"
    by (rule resolved_to_mono [OF p1(4) same_store_refl grows_refl p2(3)])
  moreover have "list_all2 (resolved_to s s2) xs ys"
    using p2(4)
  proof (rule list_all2_mono)
    fix e e' assume "resolved_to s1 s2 e e'"
    then show "resolved_to s s2 e e'"
      by (rule resolved_to_mono [OF _ p1(1) p1(3) grows_refl])
  qed
  ultimately show ?case
    using eq p1 p2 same_store_trans [OF p1(1) p2(1)] grows_trans [OF p1(3) p2(3)] by simp
qed

lemma resolve_all_Terms: "list_all is_Term es \<Longrightarrow> resolve_all s es = (es, s)"
proof (induction es)
  case Nil
  then show ?case by simp
next
  case (Cons x xs)
  then show ?case by (cases x) simp_all
qed

lemma setitem_simps [simp]:
  "terms (setitem s d k v) = terms s" "theap (setitem s d k v) = theap s"
  "next_addr (setitem s d k v) = next_addr s" "parents_cache (setitem s d k v) = parents_cache s"
  "recursion_limit (setitem s d k v) = recursion_limit s"
  "dheap (setitem s d k v) d' = (if d' = d then AList.update k v (dheap s d) else dheap s d')"
  by (simp_all add: setitem_def)

lemma entry_done_mono:
  assumes "entry_done s0 s d k" "grows s s2" "map_of (dheap s2 d) k = map_of (dheap s d) k"
  shows "entry_done s0 s2 d k"
proof -
  from assms(1) obtain old refs where o: "map_of (dheap s0 d) k = Some old"
    "map_of (dheap s d) k = Some (TermList refs)" "list_all2 (resolved_to s0 s) (elems old) refs"
    by (auto simp: entry_done_def)
  have "list_all2 (resolved_to s0 s2) (elems old) refs"
    using o(3)
  proof (rule list_all2_mono)
    fix e e' assume "resolved_to s0 s e e'"
    then show "resolved_to s0 s2 e e'"
      by (rule resolved_to_mono [OF _ same_store_refl grows_refl assms(2)])
  qed
  with o assms(3) show ?thesis by (auto simp: entry_done_def)
qed

lemma reference_step:
  assumes inv: "ref_inv s0 s" and cur: "map_of (dheap s d) k = Some v"
    and res: "resolve_all s (elems v) = (refs, s1)"
  shows "list_all is_Term refs"
    and "ref_inv s0 (setitem s1 d k (TermList refs))"
    and "grows s (setitem s1 d k (TermList refs))"
    and "entry_done s0 (setitem s1 d k (TermList refs)) d k"
    and "\<And>d' k'. entry_done s0 s d' k' \<Longrightarrow> entry_done s0 (setitem s1 d k (TermList refs)) d' k'"
    and "\<And>k'. k' \<noteq> k \<Longrightarrow> map_of (dheap (setitem s1 d k (TermList refs)) d) k' = map_of (dheap s d) k'"
proof -
  let ?s2 = "setitem s1 d k (TermList refs)"
  from resolve_all_props [OF res] have p: "same_store s s1" "dheap s1 = dheap s" "grows s s1"
    "list_all2 (resolved_to s s1) (elems v) refs" by simp_all
  show t: "list_all is_Term refs" using p(4) by (rule resolved_to_all_Term)
  have g2: "grows s ?s2" using p(3) by (simp add: grows_def)
  show "grows s ?s2" by (rule g2)
  have other: "map_of (dheap ?s2 d') k' = map_of (dheap s d') k'" if "d' \<noteq> d \<or> k' \<noteq> k" for d' k'
    using that p(2) by (auto simp: update_conv')
  have here: "map_of (dheap ?s2 d) k = Some (TermList refs)"
    by (simp add: update_conv')
  from inv have i: "same_store s0 s" "grows s0 s" "\<And>d. map fst (dheap s d) = map fst (dheap s0 d)"
    "\<And>d k. map_of (dheap s d) k = map_of (dheap s0 d) k \<or> entry_done s0 s d k"
    by (auto simp: ref_inv_def)
  show d: "entry_done s0 ?s2 d k"
  proof (cases "entry_done s0 s d k")
    case True
    then obtain old refs0 where o: "map_of (dheap s0 d) k = Some old"
      "map_of (dheap s d) k = Some (TermList refs0)"
      "list_all2 (resolved_to s0 s) (elems old) refs0"
      by (auto simp: entry_done_def)
    from o(2) cur have v: "v = TermList refs0" by simp
    have "resolve_all s refs0 = (refs0, s)"
      using resolved_to_all_Term [OF o(3)] by (rule resolve_all_Terms)
    with res v have same: "refs = refs0" "s1 = s" by simp_all
    have "list_all2 (resolved_to s0 ?s2) (elems old) refs0"
      using o(3)
    proof (rule list_all2_mono)
      fix e e' assume "resolved_to s0 s e e'"
      then show "resolved_to s0 ?s2 e e'"
        by (rule resolved_to_mono [OF _ same_store_refl grows_refl g2])
    qed
    with o(1) here same show ?thesis by (auto simp: entry_done_def)
  next
    case False
    with i(4) [of d k] cur have o: "map_of (dheap s0 d) k = Some v" by simp
    have "list_all2 (resolved_to s0 ?s2) (elems v) refs"
      using p(4)
    proof (rule list_all2_mono)
      fix e e' assume "resolved_to s s1 e e'"
      then show "resolved_to s0 ?s2 e e'"
        by (rule resolved_to_mono [OF _ i(1) i(2)]) (simp add: grows_def)
    qed
    with o here show ?thesis by (auto simp: entry_done_def)
  qed
  show pres: "entry_done s0 ?s2 d' k'" if "entry_done s0 s d' k'" for d' k'
  proof (cases "d' = d \<and> k' = k")
    case True
    with d show ?thesis by simp
  next
    case False
    then have "map_of (dheap ?s2 d') k' = map_of (dheap s d') k'" by (intro other) auto
    with that g2 show ?thesis by (rule entry_done_mono)
  qed
  show "map_of (dheap ?s2 d) k' = map_of (dheap s d) k'" if "k' \<noteq> k" for k'
    using that by (intro other) simp
  have keys: "map fst (dheap ?s2 d') = map fst (dheap s0 d')" for d'
  proof -
    from cur have "k \<in> set (map fst (dheap s d))"
      by (metis map_of_eq_None_iff option.distinct(1) set_map)
    then show ?thesis using p(2) i(3) [of d'] by (auto simp: update_keys)
  qed
  have "map_of (dheap ?s2 d') k' = map_of (dheap s0 d') k' \<or> entry_done s0 ?s2 d' k'" for d' k'
  proof (cases "d' = d \<and> k' = k")
    case True
    with d show ?thesis by simp
  next
    case False
    then have eq: "map_of (dheap ?s2 d') k' = map_of (dheap s d') k'" by (intro other) auto
    from i(4) [of d' k'] show ?thesis
    proof
      assume "map_of (dheap s d') k' = map_of (dheap s0 d') k'"
      with eq show ?thesis by simp
    next
      assume "entry_done s0 s d' k'"
      then show ?thesis using pres by simp
    qed
  qed
  moreover have "same_store s0 ?s2"
    using i(1) p(1) by (simp add: same_store_def)
  moreover have "grows s0 ?s2" using i(2) g2 by (rule grows_trans)
  ultimately show "ref_inv s0 ?s2" using keys by (simp add: ref_inv_def)
qed

lemma reference_rels_inv:
  assumes "ref_inv s0 s" "distinct (map fst items)"
    "\<And>k v. (k, v) \<in> set items \<Longrightarrow> map_of (dheap s d) k = Some v"
  shows "\<exists>s'. reference_rels s d items = Inr s' \<and> ref_inv s0 s' \<and> grows s s' \<and>
           (\<forall>k\<in>set (map fst items). entry_done s0 s' d k) \<and>
           (\<forall>d' k'. entry_done s0 s d' k' \<longrightarrow> entry_done s0 s' d' k')"
  using assms
proof (induction items arbitrary: s)
  case Nil
  then show ?case by simp
next
  case (Cons kv items)
  obtain k v where kv: "kv = (k, v)" by (cases kv)
  obtain refs s1 where res: "resolve_all s (elems v) = (refs, s1)"
    by (cases "resolve_all s (elems v)")
  let ?s2 = "setitem s1 d k (TermList refs)"
  have cur: "map_of (dheap s d) k = Some v" using Cons.prems(3) kv by simp
  note st = reference_step [OF Cons.prems(1) cur res]
  have rest: "map_of (dheap ?s2 d) k' = Some v'" if "(k', v') \<in> set items" for k' v'
  proof -
    from that Cons.prems(2) kv have "k' \<noteq> k" by (auto simp: rev_image_eqI)
    then show ?thesis using st(6) [of k'] Cons.prems(3) [of k' v'] that by simp
  qed
  from Cons.prems(2) have "distinct (map fst items)" by simp
  from Cons.IH [OF st(2) this rest] obtain s' where s':
    "reference_rels ?s2 d items = Inr s'" "ref_inv s0 s'" "grows ?s2 s'"
    "\<forall>k\<in>set (map fst items). entry_done s0 s' d k"
    "\<forall>d' k'. entry_done s0 ?s2 d' k' \<longrightarrow> entry_done s0 s' d' k'"
    by blast
  have "reference_rels s d (kv # items) = Inr s'"
    using kv res st(1) s'(1) by (simp add: TermList_init_list)
  moreover have "grows s s'" using st(3) s'(3) by (rule grows_trans)
  moreover have "entry_done s0 s' d k" using st(4) s'(5) by blast
  moreover have "\<forall>d' k'. entry_done s0 s d' k' \<longrightarrow> entry_done s0 s' d' k'"
    using st(5) s'(5) by blast
  ultimately show ?case using s'(2,4) kv by auto
qed

lemma reference_terms_inv:
  assumes "ref_inv s0 s" "list_all (\<lambda>ka. snd ka < next_addr s0) items"
    "\<forall>d. distinct (map fst (dheap s0 d))"
  shows "\<exists>s'. reference_terms s items = Inr s' \<and> ref_inv s0 s' \<and>
           (\<forall>(key, a)\<in>set items. \<forall>k\<in>set (map fst (dheap s0 (relations (theap s0 a)))).
               entry_done s0 s' (relations (theap s0 a)) k) \<and>
           (\<forall>d' k'. entry_done s0 s d' k' \<longrightarrow> entry_done s0 s' d' k')"
  using assms
proof (induction items arbitrary: s)
  case Nil
  then show ?case by simp
next
  case (Cons ka items)
  obtain key a where ka: "ka = (key, a)" by (cases ka)
  from Cons.prems(1) have i: "grows s0 s" "\<And>d. map fst (dheap s d) = map fst (dheap s0 d)"
    by (auto simp: ref_inv_def)
  have a: "a < next_addr s0" using Cons.prems(2) ka by simp
  have items: "list_all (\<lambda>ka. snd ka < next_addr s0) items" using Cons.prems(2) by simp
  from a have d: "relations (theap s a) = relations (theap s0 a)"
    using i(1) by (simp add: grows_def)
  let ?d = "relations (theap s0 a)"
  have dist: "distinct (map fst (dheap s ?d))" using i(2) Cons.prems(3) by simp
  then have cur: "map_of (dheap s ?d) k = Some v" if "(k, v) \<in> set (dheap s ?d)" for k v
    using that by simp
  from reference_rels_inv [OF Cons.prems(1) dist cur] obtain s1 where s1:
    "reference_rels s ?d (dheap s ?d) = Inr s1" "ref_inv s0 s1"
    "\<forall>k\<in>set (map fst (dheap s ?d)). entry_done s0 s1 ?d k"
    "\<forall>d' k'. entry_done s0 s d' k' \<longrightarrow> entry_done s0 s1 d' k'"
    by blast
  from Cons.IH [OF s1(2) items Cons.prems(3)] obtain s' where s':
    "reference_terms s1 items = Inr s'" "ref_inv s0 s'"
    "\<forall>(key, a)\<in>set items. \<forall>k\<in>set (map fst (dheap s0 (relations (theap s0 a)))).
        entry_done s0 s' (relations (theap s0 a)) k"
    "\<forall>d' k'. entry_done s0 s1 d' k' \<longrightarrow> entry_done s0 s' d' k'"
    by auto
  have "reference_terms s (ka # items) = Inr s'"
    using ka d s1(1) s'(1) by simp
  moreover have "\<forall>k\<in>set (map fst (dheap s0 ?d)). entry_done s0 s' ?d k"
    using s1(3) s'(4) i(2) [of ?d] by auto
  moreover have "\<forall>d' k'. entry_done s0 s d' k' \<longrightarrow> entry_done s0 s' d' k'"
    using s1(4) s'(4) by blast
  ultimately show ?case using s'(2,3) ka by auto
qed

lemma ref_inv_refl: "ref_inv s s"
  by (simp add: ref_inv_def)

lemma reference_store_dangling: "reference store_dangling = Inr store_dangling_resolved"
  by (simp add: reference_def store_dangling_def store_dangling_resolved_def mk_Term_def
      no_relations_def TermList_init_list setitem_def Term_init_def)

lemma reference_total:
  assumes "valid_store s"
  shows "\<exists>s'. reference s = Inr s' \<and> ref_inv s s' \<and>
           (\<forall>(key, a)\<in>set (terms s). \<forall>k\<in>set (map fst (dheap s (relations (theap s a)))).
               entry_done s s' (relations (theap s a)) k)"
proof -
  from assms have v: "list_all (\<lambda>ka. snd ka < next_addr s) (terms s)"
    "\<forall>d. distinct (map fst (dheap s d))"
    by (simp_all add: valid_store_def)
  from reference_terms_inv [OF ref_inv_refl v] show ?thesis
    unfolding reference_def by blast
qed

lemma valid_store_addr: "valid_store s \<Longrightarrow> (key, a) \<in> set (terms s) \<Longrightarrow> a < next_addr s"
  by (auto simp: valid_store_def list_all_iff)

lemma ref_inv_valid:
  assumes "valid_store s" "ref_inv s s'"
  shows "valid_store s'"
  using assms
  by (auto simp: valid_store_def ref_inv_def same_store_def grows_def list_all_iff)

lemma reference_resolved:
  assumes "valid_store s" "reference s = Inr s'"
  shows "resolved s'" "valid_store s'" "terms s' = terms s"
proof -
  from reference_total [OF assms(1)] assms(2) have inv: "ref_inv s s'"
    and dn: "\<forall>(key, a)\<in>set (terms s). \<forall>k\<in>set (map fst (dheap s (relations (theap s a)))).
               entry_done s s' (relations (theap s a)) k"
    by auto
  from inv show t: "terms s' = terms s" by (simp add: ref_inv_def same_store_def)
  show "valid_store s'" using assms(1) inv by (rule ref_inv_valid)
  have "resolved_value rv"
    if ka: "(key, a) \<in> set (terms s')" and kv: "(k, rv) \<in> set (dheap s' (relations (theap s' a)))"
    for key a k rv
  proof -
    from ka t have ka': "(key, a) \<in> set (terms s)" by simp
    then have "a < next_addr s" using assms(1) by (simp add: valid_store_addr)
    with inv have d: "relations (theap s' a) = relations (theap s a)"
      by (simp add: ref_inv_def grows_def)
    let ?d = "relations (theap s a)"
    from inv have keys: "map fst (dheap s' ?d) = map fst (dheap s ?d)"
      by (simp add: ref_inv_def)
    from kv d have "k \<in> set (map fst (dheap s' ?d))" by (auto simp: rev_image_eqI)
    with keys dn ka' have "entry_done s s' ?d k" by auto
    then obtain old refs where o: "map_of (dheap s' ?d) k = Some (TermList refs)"
      "list_all2 (resolved_to s s') (elems old) refs"
      by (auto simp: entry_done_def)
    from assms(1) keys have "distinct (map fst (dheap s' ?d))" by (simp add: valid_store_def)
    with kv d have "map_of (dheap s' ?d) k = Some rv" by simp
    with o show ?thesis by (simp add: resolved_to_all_Term)
  qed
  then show "resolved s'" by (auto simp: resolved_def list_all_iff)
qed

text \<open>
  Claim C3.  On a store whose references are valid, \<open>_reference\<close> returns, leaves the keys of
  the store alone, and afterwards every relation value of every term of the store is a
  TermList of Term objects, never a bare identifier.  Element by element (\<open>resolved_to\<close>):
  an identifier that is a key of the store was replaced by the Term stored under it; an
  identifier that is not was replaced by a Term object that did not exist before, with
  that identifier, the empty name and the empty description; a Term object stayed.
\<close>

theorem reference_resolves:
  assumes "valid_store s"
  shows "\<exists>s'. reference s = Inr s' \<and> terms s' = terms s \<and> resolved s' \<and>
           (\<forall>(key, a)\<in>set (terms s). \<forall>(k, old)\<in>set (dheap s (relations (theap s a))).
              \<exists>refs. map_of (dheap s' (relations (theap s' a))) k = Some (TermList refs) \<and>
                     list_all2 (resolved_to s s') (elems old) refs)"
proof -
  from reference_total [OF assms] obtain s' where s': "reference s = Inr s'" "ref_inv s s'"
    "\<forall>(key, a)\<in>set (terms s). \<forall>k\<in>set (map fst (dheap s (relations (theap s a)))).
        entry_done s s' (relations (theap s a)) k"
    by blast
  note r = reference_resolved [OF assms s'(1)]
  have "\<exists>refs. map_of (dheap s' (relations (theap s' a))) k = Some (TermList refs) \<and>
            list_all2 (resolved_to s s') (elems old) refs"
    if ka: "(key, a) \<in> set (terms s)" and kv: "(k, old) \<in> set (dheap s (relations (theap s a)))"
    for key a k old
  proof -
    from ka have "a < next_addr s" using assms by (simp add: valid_store_addr)
    with s'(2) have d: "relations (theap s' a) = relations (theap s a)"
      by (simp add: ref_inv_def grows_def)
    from kv have "k \<in> set (map fst (dheap s (relations (theap s a))))"
      by (auto simp: rev_image_eqI)
    with s'(3) ka have dn: "entry_done s s' (relations (theap s a)) k" by auto
    from assms kv have "map_of (dheap s (relations (theap s a))) k = Some old"
      by (simp add: valid_store_def)
    with dn d show ?thesis by (auto simp: entry_done_def)
  qed
  with s'(1) r(1,3) show ?thesis by blast
qed

lemma valid_store_dangling: "valid_store store_dangling"
  by (simp add: valid_store_def store_dangling_def no_relations_def)

lemma valid_store_AB_adopted: "valid_store store_AB_adopted"
  by (simp add: valid_store_def store_AB_adopted_def no_relations_def)

lemma adopt_store_AB: "adopt store_AB = Inr store_AB_adopted"
  by (simp add: adopt_def relationships_def iter_def collect_def inverse_of_def store_AB_def
      store_AB_adopted_def adopt_step_def mk_Term_def no_relations_def setitem_def)

lemma reference_store_AB: "reference store_AB_adopted = Inr store_AB_resolved"
  by (simp add: reference_def store_AB_adopted_def store_AB_resolved_def mk_Term_def
      no_relations_def TermList_init_list setitem_def)

theorem reference_resolves_witness:
  "valid_store store_dangling \<and>
   reference store_dangling = Inr store_dangling_resolved \<and>
   resolved store_dangling_resolved \<and>
   map_of (dheap store_dangling_resolved 1) ''is_a'' = Some (TermList [Ref 1]) \<and>
   cid (theap store_dangling_resolved 1) = ''B'' \<and>
   name (theap store_dangling_resolved 1) = [] \<and>
   desc (theap store_dangling_resolved 1) = [] \<and>
   valid_store store_AB_adopted \<and>
   reference store_AB_adopted = Inr store_AB_resolved \<and>
   resolved store_AB_resolved \<and>
   map_of (dheap store_AB_resolved 1) ''is_a'' = Some (TermList [Ref 1]) \<and>
   map_of (dheap store_AB_resolved 2) ''can_be'' = Some (TermList [Ref 0])"
  using reference_resolves [OF valid_store_dangling] reference_resolves [OF valid_store_AB_adopted]
    valid_store_dangling valid_store_AB_adopted
  by (auto simp: reference_store_dangling reference_store_AB)
     (simp_all add: store_dangling_resolved_def store_AB_resolved_def)

lemma setitem_triv: "map_of (dheap s d) k = Some v \<Longrightarrow> setitem s d k v = s"
  by (simp add: setitem_def update_triv)

lemma reference_rels_noop:
  assumes "\<forall>(k, rv)\<in>set items. resolved_value rv \<and> map_of (dheap s d) k = Some rv"
  shows "reference_rels s d items = Inr s"
  using assms
proof (induction items)
  case Nil
  then show ?case by simp
next
  case (Cons kv items)
  obtain k rv where kv: "kv = (k, rv)" by (cases kv)
  with Cons.prems obtain refs where rv: "rv = TermList refs" "list_all is_Term refs"
    "map_of (dheap s d) k = Some (TermList refs)"
    by (cases rv) auto
  from Cons have "reference_rels s d items = Inr s" by simp
  then show ?case
    using kv rv by (simp add: resolve_all_Terms TermList_init_list setitem_triv)
qed

lemma reference_terms_noop:
  assumes "list_all (\<lambda>ka. list_all (\<lambda>kv. resolved_value (snd kv)) (dheap s (relations (theap s (snd ka))))) items"
    "\<forall>d. distinct (map fst (dheap s d))"
  shows "reference_terms s items = Inr s"
  using assms(1)
proof (induction items)
  case Nil
  then show ?case by simp
next
  case (Cons ka items)
  obtain key a where ka: "ka = (key, a)" by (cases ka)
  let ?d = "relations (theap s a)"
  from Cons.prems ka have "\<forall>(k, rv)\<in>set (dheap s ?d). resolved_value rv \<and> map_of (dheap s ?d) k = Some rv"
    using assms(2) by (auto simp: list_all_iff)
  then have "reference_rels s ?d (dheap s ?d) = Inr s" by (rule reference_rels_noop)
  with Cons ka show ?case by simp
qed

lemma reference_noop: "resolved s \<Longrightarrow> valid_store s \<Longrightarrow> reference s = Inr s"
  unfolding reference_def
  by (rule reference_terms_noop) (simp_all add: resolved_def valid_store_def)

text \<open>
  Claim C5.  Running \<open>_reference\<close> on the state a first run produced returns that state
  unchanged: every element is already a Term, so no object is created and every
  dictionary entry is assigned the list it already holds.
\<close>

theorem reference_idempotent:
  assumes "valid_store s" and "reference s = Inr s'"
  shows "reference s' = Inr s'"
  using reference_resolved [OF assms] by (simp add: reference_noop)

theorem reference_idempotent_witness:
  "valid_store store_dangling \<and>
   reference store_dangling = Inr store_dangling_resolved \<and>
   reference store_dangling_resolved = Inr store_dangling_resolved \<and>
   store_dangling_resolved \<noteq> store_dangling"
proof -
  have "next_addr store_dangling_resolved \<noteq> next_addr store_dangling"
    by (simp add: store_dangling_resolved_def store_dangling_def)
  then have "store_dangling_resolved \<noteq> store_dangling" by auto
  then show ?thesis
    using reference_idempotent [OF valid_store_dangling reference_store_dangling]
      valid_store_dangling reference_store_dangling by simp
qed

lemma getitem_KeyError: "(getitem s (Str x) = Inl KeyError) = (x \<notin> set (map fst (terms s)))"
proof -
  have "(map_of (terms s) x = None) = (x \<notin> fst ` set (terms s))"
    by (rule map_of_eq_None_iff)
  then show ?thesis by (cases "map_of (terms s) x") simp_all
qed

text \<open>
  Claim C9.  \<open>__getitem__\<close> raises \<open>KeyError\<close> exactly for the identifiers that are not keys
  of \<open>self.terms\<close>.  \<open>_reference\<close> does not touch the keys, so every lookup answers after
  the pass what it answered before; in particular a lookup never returns an object the
  pass created, and the identifier of a dangling reference is still not found.
\<close>

theorem getitem_after_reference:
  assumes "valid_store s" and "reference s = Inr s'"
  shows "(getitem s' (Str x) = Inl KeyError) = (x \<notin> set (map fst (terms s'))) \<and>
         terms s' = terms s \<and> getitem s' (Str x) = getitem s (Str x) \<and>
         (\<forall>p. getitem s' (Str x) = Inr p \<longrightarrow> p < next_addr s)"
proof -
  from reference_resolved [OF assms] have t: "terms s' = terms s" by simp
  have "p < next_addr s" if "getitem s (Str x) = Inr p" for p
  proof -
    from that have "(x, p) \<in> set (terms s)"
      by (auto split: option.splits dest: map_of_SomeD)
    with assms(1) show ?thesis by (rule valid_store_addr)
  qed
  with t getitem_KeyError [of s' x] show ?thesis by simp
qed

theorem getitem_after_reference_witness:
  "valid_store store_dangling \<and>
   reference store_dangling = Inr store_dangling_resolved \<and>
   cid (theap store_dangling_resolved 1) = ''B'' \<and>
   getitem store_dangling_resolved (Str ''B'') = Inl KeyError \<and>
   getitem store_dangling_resolved (Str ''A'') = Inr 0"
proof -
  have "getitem store_dangling_resolved (Str ''B'') = Inl KeyError"
    using getitem_after_reference [OF valid_store_dangling reference_store_dangling, of "''B''"]
    by (simp add: store_dangling_resolved_def)
  moreover have "cid (theap store_dangling_resolved 1) = ''B''"
    "getitem store_dangling_resolved (Str ''A'') = Inr 0"
    by (simp_all add: store_dangling_resolved_def Term_init_def)
  ultimately show ?thesis
    using valid_store_dangling reference_store_dangling by simp
qed

section \<open>The adoption pass\<close>

lemma elems_append [simp]: "elems (append rv x) = elems rv @ [x]"
  by (cases rv) simp_all

lemma setitem_setitem [simp]: "setitem (setitem s d k v) d k v' = setitem s d k v'"
  by (simp add: setitem_def)

lemma key_in_dict: "k \<in> set (map fst al) \<longleftrightarrow> map_of al k \<noteq> None"
  by (simp add: map_of_eq_None_iff)

lemma adopt_step_Str:
  "adopt_step s (Str P, rel, child) =
     (case map_of (terms s) P of
        None \<Rightarrow> Inr s
      | Some p \<Rightarrow>
          Inr (setitem s (relations (theap s p)) rel
                 (append (case map_of (dheap s (relations (theap s p))) rel of
                            None \<Rightarrow> TermList [] | Some rv \<Rightarrow> rv) (Str child))))"
proof (cases "map_of (terms s) P")
  case None
  then have "P \<notin> set (map fst (terms s))" by (simp add: map_of_eq_None_iff)
  then show ?thesis using None by (simp add: adopt_step_def)
next
  case (Some p)
  then have "P \<in> fst ` set (terms s)" using key_in_dict [of P "terms s"] by simp
  then show ?thesis using Some
    by (cases "map_of (dheap s (relations (theap s p))) rel")
       (simp_all add: adopt_step_def map_of_eq_None_iff [symmetric] update_conv')
qed

lemma edges_setitem:
  "edges (setitem s d k v) a kind =
     (if relations (theap s a) = d \<and> kind = k then elems v else edges s a kind)"
  by (simp add: edges_def update_conv')

lemma edges_old:
  "elems (case map_of (dheap s (relations (theap s a))) kind of
            None \<Rightarrow> TermList [] | Some rv \<Rightarrow> rv) = edges s a kind"
  by (simp add: edges_def split: option.split)

lemma adopt_step_frame:
  assumes "adopt_step s r = Inr s'" "\<not> is_Term (fst r)"
  shows "terms s' = terms s" "theap s' = theap s"
    "set (edges s a kind) \<subseteq> set (edges s' a kind)"
proof -
  obtain P rel child where r: "r = (Str P, rel, child)"
    using assms(2) by (cases r; cases "fst r") auto
  from assms(1) show "terms s' = terms s" "theap s' = theap s"
    unfolding r adopt_step_Str by (auto split: option.splits)
  show "set (edges s a kind) \<subseteq> set (edges s' a kind)"
  proof (cases "map_of (terms s) P")
    case None
    with assms(1) show ?thesis unfolding r adopt_step_Str by simp
  next
    case (Some p)
    with assms(1) have "s' = setitem s (relations (theap s p)) rel
        (append (case map_of (dheap s (relations (theap s p))) rel of
                   None \<Rightarrow> TermList [] | Some rv \<Rightarrow> rv) (Str child))"
      unfolding r adopt_step_Str by simp
    then show ?thesis
      using edges_old [of s a kind] by (auto simp: edges_setitem)
  qed
qed

lemma adopt_step_records:
  assumes "adopt_step s (Str P, rel, child) = Inr s'" "map_of (terms s) P = Some p"
  shows "Str child \<in> set (edges s' p rel)"
  using assms unfolding adopt_step_Str by (auto simp: edges_setitem)

lemma adopt_step_total:
  "\<not> is_Term (fst r) \<Longrightarrow> \<exists>s'. adopt_step s r = Inr s'"
  by (cases r; cases "fst r") (auto simp: adopt_step_Str split: option.splits)

lemma adopt_loop_total:
  "list_all (\<lambda>r. \<not> is_Term (fst r)) rs \<Longrightarrow> \<exists>s'. adopt_loop s rs = Inr s'"
proof (induction rs arbitrary: s)
  case Nil
  then show ?case by simp
next
  case (Cons r rs)
  then obtain s1 where "adopt_step s r = Inr s1" using adopt_step_total [of r s] by auto
  with Cons show ?case by simp
qed

lemma adopt_loop_frame:
  assumes "adopt_loop s rs = Inr s'" "list_all (\<lambda>r. \<not> is_Term (fst r)) rs"
  shows "terms s' = terms s \<and> theap s' = theap s \<and>
         set (edges s a kind) \<subseteq> set (edges s' a kind)"
  using assms
proof (induction rs arbitrary: s)
  case Nil
  then show ?case by simp
next
  case (Cons r rs)
  from Cons.prems obtain s1 where s1: "adopt_step s r = Inr s1" "adopt_loop s1 rs = Inr s'"
    by (auto split: sum.splits)
  from Cons.prems(2) have r: "\<not> is_Term (fst r)" and rs: "list_all (\<lambda>r. \<not> is_Term (fst r)) rs"
    by simp_all
  from adopt_step_frame [OF s1(1) r] Cons.IH [OF s1(2) rs] show ?case by fastforce
qed

lemma adopt_loop_records:
  assumes "adopt_loop s rs = Inr s'" "list_all (\<lambda>r. \<not> is_Term (fst r)) rs"
    "(Str P, rel, child) \<in> set rs" "map_of (terms s) P = Some p"
  shows "Str child \<in> set (edges s' p rel)"
  using assms
proof (induction rs arbitrary: s)
  case Nil
  then show ?case by simp
next
  case (Cons r rs)
  from Cons.prems obtain s1 where s1: "adopt_step s r = Inr s1" "adopt_loop s1 rs = Inr s'"
    by (auto split: sum.splits)
  from Cons.prems(2) have r: "\<not> is_Term (fst r)" and rs: "list_all (\<lambda>r. \<not> is_Term (fst r)) rs"
    by simp_all
  note f = adopt_step_frame [OF s1(1) r]
  show ?case
  proof (cases "r = (Str P, rel, child)")
    case True
    with s1(1) Cons.prems(4) have "Str child \<in> set (edges s1 p rel)"
      by (simp add: adopt_step_records)
    with adopt_loop_frame [OF s1(2) rs, of p rel] show ?thesis by auto
  next
    case False
    with Cons.prems(3) have "(Str P, rel, child) \<in> set rs" by simp
    moreover have "map_of (terms s1) P = Some p" using f(1) Cons.prems(4) by simp
    ultimately show ?thesis using Cons.IH [OF s1(2) rs] by simp
  qed
qed

lemma inverse_of_edges:
  "inverse_of s t forward rel = map (\<lambda>parent. (parent, rel, cid (theap s t))) (edges s t forward)"
  by (simp add: inverse_of_def edges_def split: option.split)

lemma collect_member:
  assumes "(forward, rel) \<in> set [(''is_a'', ''can_be''), (''part_of'', ''has_part''), (''is_part'', ''part_of'')]"
    "e \<in> set (edges s t forward)"
  shows "(e, rel, cid (theap s t)) \<in> set (collect s t)"
  using assms by (auto simp: collect_def inverse_of_edges)

lemma set_iter: "set (iter s) = snd ` set (terms s)"
  by (simp add: iter_def)

lemma relationships_member:
  assumes "(key, t) \<in> set (terms s)"
    "(forward, rel) \<in> set [(''is_a'', ''can_be''), (''part_of'', ''has_part''), (''is_part'', ''part_of'')]"
    "e \<in> set (edges s t forward)"
  shows "(e, rel, cid (theap s t)) \<in> set (relationships s)"
proof -
  from assms(1) have "t \<in> set (iter s)" by (auto simp: set_iter rev_image_eqI)
  with collect_member [OF assms(2,3)] show ?thesis
    unfolding relationships_def by auto
qed

text \<open>
  Claim C1, as the code has it.  When the parents collected by the first loop are
  identifiers, \<open>_adopt\<close> returns, and for every term \<open>T\<close> of the store with a forward edge
  of kind \<open>is_a\<close>, \<open>part_of\<close> or \<open>is_part\<close> to an identifier \<open>P\<close> that is a key of the store,
  the term stored under \<open>P\<close> then holds the id of \<open>T\<close> under \<open>can_be\<close>, \<open>has_part\<close> or
  \<open>part_of\<close>.  For an identifier that is not a key of the store the guard
  \<open>if parent in self\<close> skips the triple and the state stays as it was.
\<close>

theorem adopt_records_inverse:
  assumes "list_all (\<lambda>r. \<not> is_Term (fst r)) (relationships s)"
  shows "\<exists>s'. adopt s = Inr s' \<and> terms s' = terms s \<and> theap s' = theap s \<and>
           (\<forall>(key, t)\<in>set (terms s).
              \<forall>(forward, rel)\<in>set [(''is_a'', ''can_be''), (''part_of'', ''has_part''),
                                   (''is_part'', ''part_of'')].
                \<forall>P p. Str P \<in> set (edges s t forward) \<and> map_of (terms s) P = Some p \<longrightarrow>
                   Str (cid (theap s t)) \<in> set (edges s' p rel)) \<and>
           (\<forall>s0 P rel child. map_of (terms s0) P = None \<longrightarrow>
              adopt_step s0 (Str P, rel, child) = Inr s0)"
proof -
  from adopt_loop_total [OF assms] obtain s' where s': "adopt s = Inr s'"
    unfolding adopt_def by blast
  then have l: "adopt_loop s (relationships s) = Inr s'" by (simp add: adopt_def)
  from adopt_loop_frame [OF l assms] have f: "terms s' = terms s" "theap s' = theap s"
    by simp_all
  have "Str (cid (theap s t)) \<in> set (edges s' p rel)"
    if "(key, t) \<in> set (terms s)"
      "(forward, rel) \<in> set [(''is_a'', ''can_be''), (''part_of'', ''has_part''), (''is_part'', ''part_of'')]"
      "Str P \<in> set (edges s t forward)" "map_of (terms s) P = Some p"
    for key t forward rel P p
    using adopt_loop_records [OF l assms relationships_member [OF that(1,2,3)] that(4)] .
  moreover have "adopt_step s0 (Str P, rel, child) = Inr s0" if "map_of (terms s0) P = None"
    for s0 P rel child
    using that by (simp add: adopt_step_Str)
  ultimately show ?thesis using s' f by blast
qed

theorem adopt_records_inverse_witness:
  "list_all (\<lambda>r. \<not> is_Term (fst r)) (relationships store_AB) \<and>
   adopt store_AB = Inr store_AB_adopted \<and>
   edges store_AB 0 ''is_a'' = [Str ''B''] \<and>
   map_of (terms store_AB) ''B'' = Some 1 \<and>
   Str ''A'' \<in> set (edges store_AB_adopted 1 ''can_be'')"
proof -
  have h: "list_all (\<lambda>r. \<not> is_Term (fst r)) (relationships store_AB)"
    by (simp add: relationships_def iter_def collect_def inverse_of_def store_AB_def
        mk_Term_def no_relations_def)
  have e: "edges store_AB 0 ''is_a'' = [Str ''B'']" "map_of (terms store_AB) ''B'' = Some 1"
    "(''A'', 0) \<in> set (terms store_AB)" "cid (theap store_AB 0) = ''A''"
    by (simp_all add: edges_def store_AB_def mk_Term_def)
  from adopt_records_inverse [OF h] adopt_store_AB e
  have "Str ''A'' \<in> set (edges store_AB_adopted 1 ''can_be'')"
    by fastforce
  with h adopt_store_AB e show ?thesis by simp
qed

text \<open>
  The counterexample to claim C1: \<open>A\<close> has the forward edge \<open>is_a\<close> to \<open>B\<close>, and \<open>B\<close> is no
  key of the store; \<open>_adopt\<close> returns the state it was given, so no inverse edge was
  recorded anywhere.
\<close>

theorem adopt_skips_absent_parent:
  "adopt store_dangling = Inr store_dangling \<and>
   edges store_dangling 0 ''is_a'' = [Str ''B''] \<and>
   map_of (terms store_dangling) ''B'' = None"
  by (simp add: adopt_def relationships_def iter_def collect_def inverse_of_def edges_def
      store_dangling_def adopt_step_def mk_Term_def no_relations_def)

text \<open>
  Claim C4 at the scenario of the specification.  \<open>_adopt\<close> finds no \<open>can_be\<close> key in the
  dictionary of \<open>B\<close>, stores a new empty TermList there and appends \<open>term.id\<close>, a string,
  through the forwarded \<open>list.append\<close>, which checks nothing: the TermList under
  \<open>can_be\<close> then holds the bare identifier \<open>'A'\<close>, a content that the constructor's own
  \<open>_check_content\<close> refuses with \<open>TypeError\<close>.
\<close>

theorem adopt_appends_identifier_to_TermList:
  "adopt store_AB = Inr store_AB_adopted \<and>
   map_of (dheap store_AB_adopted 2) ''can_be'' = Some (TermList [Str ''A'']) \<and>
   TermList_init (recursion_limit store_AB_adopted) [ArgList [Str ''A'']] = Inl TypeError"
  using adopt_store_AB by (simp add: store_AB_adopted_def TermList_init_list)

section \<open>Recursive children\<close>

lemma reference_store_twice: "reference store_twice = Inr store_twice_resolved"
  by (simp add: reference_def store_twice_def store_twice_resolved_def mk_Term_def
      no_relations_def TermList_init_list setitem_def numeral_2_eq_2 Term_init_def)



lemma children_eq [simp]: "children s a = Inr (children_of s a)"
  by (simp add: children_def children_of_def)

lemma TermList_init_set:
  "TermList_init limit [ArgSet xs] = (if list_all is_Term xs then Inr xs else Inl TypeError)"
  by (simp add: TermList_init_def check_content_def list_all_iff)

lemma rchildren_Suc:
  "rchildren (Suc n) s a level im =
     (if level = 0 then Some (Inr [])
      else case rchildren_loop n s (children_of s a) (level - 1) im
                  (if im \<or> level = 1 then children_of s a else []) of
             None \<Rightarrow> None
           | Some (Inl e) \<Rightarrow> Some (Inl e)
           | Some (Inr acc) \<Rightarrow>
               Some (if list_all is_Term acc then Inr (remdups acc) else Inl TypeError))"
  by (simp add: TermList_init_set list_all_iff split: option.split sum.split)

declare rchildren.simps(2) [simp del]

lemma rchildren_numeral:
  "rchildren (numeral k) s a level im =
     (if level = 0 then Some (Inr [])
      else case rchildren_loop (pred_numeral k) s (children_of s a) (level - 1) im
                  (if im \<or> level = 1 then children_of s a else []) of
             None \<Rightarrow> None
           | Some (Inl e) \<Rightarrow> Some (Inl e)
           | Some (Inr acc) \<Rightarrow>
               Some (if list_all is_Term acc then Inr (remdups acc) else Inl TypeError))"
  unfolding numeral_eq_Suc by (rule rchildren_Suc)

lemma rchildren_result:
  assumes "rchildren n s a level im = Some (Inr xs)"
  shows "distinct xs \<and> list_all is_Term xs"
proof (cases n)
  case 0
  with assms show ?thesis by simp
next
  case (Suc m)
  with assms show ?thesis
    by (auto simp: rchildren_Suc list_all_iff split: if_splits option.splits sum.splits)
qed

lemma rchildren_loop_set:
  assumes "rchildren_loop n s cs level im acc = Some (Inr ys)"
  shows "set ys = set acc \<union>
           {x. \<exists>c r. Ref c \<in> set cs \<and> rchildren n s c level im = Some (Inr r) \<and> x \<in> set r} \<and>
         (\<forall>e\<in>set cs. \<exists>c r. e = Ref c \<and> rchildren n s c level im = Some (Inr r))"
  using assms
proof (induction cs arbitrary: acc)
  case Nil
  then show ?case by simp
next
  case (Cons e cs)
  from Cons.prems obtain c r where c: "e = Ref c" "rchildren n s c level im = Some (Inr r)"
    "rchildren_loop n s cs level im (acc @ r) = Some (Inr ys)"
    by (cases e) (auto split: option.splits sum.splits)
  from Cons.IH [OF c(3)] c(1,2) show ?case by auto
qed

lemma path_pos: "path s a k d \<Longrightarrow> 0 < k"
  by (induction rule: path.induct) simp_all

lemma path_Suc:
  "path s a (Suc k) d \<longleftrightarrow>
     (k = 0 \<and> Ref d \<in> set (children_of s a)) \<or>
     (\<exists>b. Ref b \<in> set (children_of s a) \<and> path s b k d)"
proof
  assume "path s a (Suc k) d"
  then show "(k = 0 \<and> Ref d \<in> set (children_of s a)) \<or>
     (\<exists>b. Ref b \<in> set (children_of s a) \<and> path s b k d)"
    by (cases rule: path.cases) auto
next
  assume "(k = 0 \<and> Ref d \<in> set (children_of s a)) \<or>
     (\<exists>b. Ref b \<in> set (children_of s a) \<and> path s b k d)"
  then show "path s a (Suc k) d"
    by (auto intro: path.intros)
qed

lemma collected_one: "level \<noteq> 0 \<Longrightarrow> collected level im (Suc 0) \<longleftrightarrow> im \<or> level = 1"
  by (auto simp: collected_def)

lemma collected_Suc:
  "level \<noteq> 0 \<Longrightarrow> collected level im (Suc k) \<longleftrightarrow> collected (level - 1) im k"
  by (auto simp: collected_def)

lemma collected_zero: "0 < k \<Longrightarrow> \<not> collected 0 im k"
  by (auto simp: collected_def)

lemma rchildren_set:
  "rchildren n s a level im = Some (Inr xs) \<Longrightarrow>
     Ref d \<in> set xs \<longleftrightarrow> (\<exists>k. path s a k d \<and> collected level im k)"
proof (induction n arbitrary: a level xs d)
  case 0
  then show ?case by simp
next
  case (Suc n)
  show ?case
  proof (cases "level = 0")
    case True
    with Suc.prems have "xs = []" by (simp add: rchildren_Suc)
    with True show ?thesis using path_pos collected_zero by auto
  next
    case False
    let ?cs = "children_of s a"
    let ?acc0 = "if im \<or> level = 1 then ?cs else []"
    from Suc.prems False obtain acc where acc:
      "rchildren_loop n s ?cs (level - 1) im ?acc0 = Some (Inr acc)" "xs = remdups acc"
      by (auto simp: rchildren_Suc split: option.splits sum.splits if_splits)
    note ls = rchildren_loop_set [OF acc(1)]
    have sub: "(\<exists>c r. Ref c \<in> set ?cs \<and> rchildren n s c (level - 1) im = Some (Inr r) \<and> Ref d \<in> set r)
        \<longleftrightarrow> (\<exists>c k. Ref c \<in> set ?cs \<and> path s c k d \<and> collected (level - 1) im k)"
      (is "?L \<longleftrightarrow> ?R")
    proof
      assume ?L
      then obtain c r where c: "Ref c \<in> set ?cs" "rchildren n s c (level - 1) im = Some (Inr r)"
        "Ref d \<in> set r" by blast
      from Suc.IH [OF c(2), of d] c(3) obtain k where "path s c k d" "collected (level - 1) im k"
        by blast
      with c(1) show ?R by blast
    next
      assume ?R
      then obtain c k where c: "Ref c \<in> set ?cs" "path s c k d" "collected (level - 1) im k"
        by blast
      from ls c(1) obtain r where r: "rchildren n s c (level - 1) im = Some (Inr r)" by blast
      from Suc.IH [OF r, of d] c(2,3) have "Ref d \<in> set r" by blast
      with c(1) r show ?L by blast
    qed
    have first: "Ref d \<in> set ?acc0 \<longleftrightarrow> Ref d \<in> set ?cs \<and> collected level im (Suc 0)"
      using collected_one [OF False, of im] by auto
    have rest: "(\<exists>c k. Ref c \<in> set ?cs \<and> path s c k d \<and> collected (level - 1) im k) \<longleftrightarrow>
        (\<exists>c k. Ref c \<in> set ?cs \<and> path s c k d \<and> collected level im (Suc k))"
      by (simp only: collected_Suc [OF False])
    have "Ref d \<in> set xs \<longleftrightarrow> Ref d \<in> set ?acc0 \<or>
        (\<exists>c r. Ref c \<in> set ?cs \<and> rchildren n s c (level - 1) im = Some (Inr r) \<and> Ref d \<in> set r)"
      using ls acc(2) by auto
    also have "\<dots> \<longleftrightarrow> (Ref d \<in> set ?cs \<and> collected level im (Suc 0)) \<or>
        (\<exists>c k. Ref c \<in> set ?cs \<and> path s c k d \<and> collected level im (Suc k))"
      by (simp only: first sub rest)
    also have "\<dots> \<longleftrightarrow> (\<exists>k. path s a (Suc k) d \<and> collected level im (Suc k))"
    proof
      assume "(Ref d \<in> set ?cs \<and> collected level im (Suc 0)) \<or>
        (\<exists>c k. Ref c \<in> set ?cs \<and> path s c k d \<and> collected level im (Suc k))"
      then show "\<exists>k. path s a (Suc k) d \<and> collected level im (Suc k)"
        by (auto intro: path.intros)
    next
      assume "\<exists>k. path s a (Suc k) d \<and> collected level im (Suc k)"
      then obtain k where k: "path s a (Suc k) d" "collected level im (Suc k)" by blast
      from k(1) show "(Ref d \<in> set ?cs \<and> collected level im (Suc 0)) \<or>
        (\<exists>c k. Ref c \<in> set ?cs \<and> path s c k d \<and> collected level im (Suc k))"
        unfolding path_Suc using k(2) by auto
    qed
    also have "\<dots> \<longleftrightarrow> (\<exists>k. path s a k d \<and> collected level im k)"
    proof
      assume "\<exists>k. path s a (Suc k) d \<and> collected level im (Suc k)"
      then show "\<exists>k. path s a k d \<and> collected level im k" by blast
    next
      assume "\<exists>k. path s a k d \<and> collected level im k"
      then obtain k where k: "path s a k d" "collected level im k" by blast
      from path_pos [OF k(1)] obtain k' where "k = Suc k'" by (cases k) auto
      with k show "\<exists>k. path s a (Suc k) d \<and> collected level im (Suc k)" by blast
    qed
    finally show ?thesis .
  qed
qed




lemma below_self [simp]: "below s a a"
  by (simp add: below_def)

















lemma children_of_store_twice:
  "children_of store_twice_resolved a = (if a = 0 then [Ref 1, Ref 2] else [])"
  by (simp add: children_of_def extend_kinds_def store_twice_resolved_def mk_Term_def
      Term_init_def default_relations_def no_terms_def no_relations_def)

lemma rchildren_store_twice:
  "rchildren 10 store_twice_resolved 0 (- 1) True = Some (Inr [Ref 1, Ref 2])"
  by (simp add: rchildren_numeral children_of_store_twice)












text \<open>
  Claim C7, as the code has it.  The result of \<open>rchildren\<close> is \<open>TermList(set(rchildren))\<close>,
  and a Python set of Terms keeps one entry per Term object.  Whatever the call returns
  holds no object twice, and it holds exactly the objects at the end of a path of a
  collected length from the start term: whether an object is in the result depends on the
  paths that reach it and never on its identifier.  In particular two different objects
  that are both reached and carry the same identifier are both in the result.  (The order
  of the list is the model's; Python fixes none.)
\<close>

theorem rchildren_identity_dedup:
  assumes "rchildren n s a level im = Some (Inr xs)"
  shows "distinct xs \<and> list_all is_Term xs \<and>
         (\<forall>d. (Ref d \<in> set xs) = (\<exists>k. path s a k d \<and> collected level im k)) \<and>
         (\<forall>d d'. d \<noteq> d' \<and> cid (theap s d) = cid (theap s d') \<and>
                 (\<exists>k. path s a k d \<and> collected level im k) \<and>
                 (\<exists>k. path s a k d' \<and> collected level im k) \<longrightarrow>
                 Ref d \<in> set xs \<and> Ref d' \<in> set xs \<and> Ref d \<noteq> Ref d')"
  using rchildren_result [OF assms] rchildren_set [OF assms] by simp

theorem rchildren_identity_dedup_witness:
  "rchildren 10 store_twice_resolved 0 (- 1) True = Some (Inr [Ref 1, Ref 2]) \<and>
   distinct [Ref 1, Ref 2] \<and>
   (\<exists>k. path store_twice_resolved 0 k 1 \<and> collected (- 1) True k) \<and>
   (\<exists>k. path store_twice_resolved 0 k 2 \<and> collected (- 1) True k) \<and>
   cid (theap store_twice_resolved 1) = cid (theap store_twice_resolved 2)"
proof -
  have c: "cid (theap store_twice_resolved 1) = cid (theap store_twice_resolved 2)"
    by (simp add: store_twice_resolved_def)
  from rchildren_identity_dedup [OF rchildren_store_twice]
  have m: "(Ref d \<in> set [Ref 1, Ref 2]) =
      (\<exists>k. path store_twice_resolved 0 k d \<and> collected (- 1) True k)" for d
    by blast
  from m [of 1] m [of 2] c rchildren_store_twice show ?thesis by simp
qed

text \<open>
  The counterexample to claim C7: after \<open>_reference\<close> the term \<open>A\<close> of \<open>store_twice\<close> has two
  children, the placeholder objects at 1 and 2, both with the identifier \<open>X\<close>, and
  \<open>rchildren\<close> returns both.
\<close>

theorem rchildren_keeps_equal_identifiers:
  "reference store_twice = Inr store_twice_resolved \<and>
   rchildren 10 store_twice_resolved 0 (- 1) True = Some (Inr [Ref 1, Ref 2]) \<and>
   cid (theap store_twice_resolved 1) = ''X'' \<and>
   cid (theap store_twice_resolved 2) = ''X''"
  using reference_store_twice rchildren_store_twice
  by (simp add: store_twice_resolved_def)

section \<open>Serialization and cached parents\<close>

lemma TermList_id_Terms:
  "list_all is_Term xs \<Longrightarrow> TermList_id s xs = Inr (map (endpoint_id s) xs)"
proof (induction xs)
  case Nil
  then show ?case by simp
next
  case (Cons x xs)
  then show ?case by (cases x) simp_all
qed

lemma relations_ids_resolved:
  "list_all (\<lambda>kv. resolved_value (snd kv)) d \<Longrightarrow>
     relations_ids s d =
       Inr (map (\<lambda>kv. (fst kv, JArray (map (\<lambda>e. JString (endpoint_id s e)) (elems (snd kv))))) d)"
proof (induction d)
  case Nil
  then show ?case by simp
next
  case (Cons kv d)
  obtain k rv where kv: "kv = (k, rv)" by (cases kv)
  with Cons.prems obtain xs where rv: "rv = TermList xs" "list_all is_Term xs"
    by (cases rv) auto
  from Cons have "relations_ids s d =
      Inr (map (\<lambda>kv. (fst kv, JArray (map (\<lambda>e. JString (endpoint_id s e)) (elems (snd kv))))) d)"
    by simp
  then show ?case using kv rv by (simp add: TermList_id_Terms comp_def)
qed

lemma sort_keys_meta [simp]: "sort_keys (meta_json m) = meta_json m"
  by (cases m) (simp_all add: comp_def)

lemma sort_keys_other [simp]:
  "map_prod id sort_keys \<circ> map_prod id meta_json = map_prod id meta_json"
  by (auto simp: fun_eq_iff)

lemma sort_keys_ids [simp]:
  "map_prod id sort_keys \<circ>
     (\<lambda>kv. (fst kv, JArray (map (\<lambda>e. JString (endpoint_id s e)) (elems (snd kv))))) =
   (\<lambda>kv. (fst kv, JArray (map (\<lambda>e. JString (endpoint_id s e)) (elems (snd kv)))))"
  by (simp add: fun_eq_iff comp_def)

lemma deref_resolved:
  assumes "list_all (\<lambda>kv. resolved_value (snd kv)) (dheap s (relations (theap s a)))"
  shows "\<exists>j. deref s a = Inr j \<and> sort_keys j = term_json s a"
  using relations_ids_resolved [OF assms, of s]
  by (simp add: deref_def term_json_def)

lemma deref_all_resolved:
  assumes "list_all (\<lambda>ka. list_all (\<lambda>kv. resolved_value (snd kv)) (dheap s (relations (theap s (snd ka))))) items"
  shows "\<exists>js. deref_all s items = Inr js \<and>
           map (map_prod id sort_keys) js = map (\<lambda>ka. (fst ka, term_json s (snd ka))) items"
  using assms
proof (induction items)
  case Nil
  then show ?case by simp
next
  case (Cons ka items)
  obtain k a where ka: "ka = (k, a)" by (cases ka)
  with Cons.prems obtain j where j: "deref s a = Inr j" "sort_keys j = term_json s a"
    using deref_resolved [of s a] by auto
  from Cons.prems have "list_all (\<lambda>ka. list_all (\<lambda>kv. resolved_value (snd kv))
      (dheap s (relations (theap s (snd ka))))) items"
    by simp
  from Cons.IH [OF this] obtain js where js: "deref_all s items = Inr js"
    "map (map_prod id sort_keys) js = map (\<lambda>ka. (fst ka, term_json s (snd ka))) items"
    by blast
  with ka j show ?case by (simp add: id_def)
qed

text \<open>
  Claim C6, as the code has it.  For a resolved store the property \<open>json\<close> returns, and what
  it writes is an object with one entry per key of the store, in key order, whose value is
  \<open>term_json\<close>: exactly the fields \<open>desc\<close>, \<open>id\<close>, \<open>name\<close>, \<open>other\<close> and \<open>relations\<close>, the last
  mapping each kind to a list of identifier strings.  No Term object is nested in it, also
  when a term is its own ancestor (the witness is the store in which \<open>A\<close> and \<open>B\<close> are each
  part of the other).
\<close>

theorem json_of_resolved:
  assumes "resolved s"
  shows "json_of s =
     Inr (JObject (sort_key fst (map (\<lambda>ka. (fst ka, term_json s (snd ka))) (terms s))))"
proof -
  from assms deref_all_resolved [of s "terms s"] obtain js where
    "deref_all s (terms s) = Inr js"
    "map (map_prod id sort_keys) js = map (\<lambda>ka. (fst ka, term_json s (snd ka))) (terms s)"
    by (auto simp: resolved_def)
  then show ?thesis by (simp add: json_of_def)
qed

lemma resolved_store_cycle: "resolved store_cycle_resolved"
  by (simp add: resolved_def store_cycle_resolved_def mk_Term_def no_relations_def)

theorem json_of_resolved_witness:
  "resolved store_cycle_resolved \<and>
   json_of store_cycle_resolved =
     Inr (JObject
       [(''A'', JObject [(''desc'', JString []), (''id'', JString ''A''),
           (''name'', JString ''a''), (''other'', JObject []),
           (''relations'', JObject [(''has_part'', JArray [JString ''B'']),
                                    (''part_of'', JArray [JString ''B''])])]),
        (''B'', JObject [(''desc'', JString []), (''id'', JString ''B''),
           (''name'', JString ''b''), (''other'', JObject []),
           (''relations'', JObject [(''has_part'', JArray [JString ''A'']),
                                    (''part_of'', JArray [JString ''A''])])])])"
proof -
  have "sort_key fst (map (\<lambda>ka. (fst ka, term_json store_cycle_resolved (snd ka)))
          (terms store_cycle_resolved)) =
       [(''A'', JObject [(''desc'', JString []), (''id'', JString ''A''),
           (''name'', JString ''a''), (''other'', JObject []),
           (''relations'', JObject [(''has_part'', JArray [JString ''B'']),
                                    (''part_of'', JArray [JString ''B''])])]),
        (''B'', JObject [(''desc'', JString []), (''id'', JString ''B''),
           (''name'', JString ''b''), (''other'', JObject []),
           (''relations'', JObject [(''has_part'', JArray [JString ''A'']),
                                    (''part_of'', JArray [JString ''A''])])])]"
    by (simp add: term_json_def store_cycle_resolved_def mk_Term_def)
  with json_of_resolved [OF resolved_store_cycle] resolved_store_cycle show ?thesis by simp
qed

text \<open>
  The counterexample to claim C6: the value written for \<open>A\<close> has the field \<open>desc\<close> and no
  field \<open>description\<close>.
\<close>

theorem json_field_is_desc:
  "json_of store_dangling_resolved =
     Inr (JObject
       [(''A'', JObject [(''desc'', JString []), (''id'', JString ''A''),
           (''name'', JString ''a''), (''other'', JObject []),
           (''relations'', JObject [(''is_a'', JArray [JString ''B''])])])]) \<and>
   fields (term_json store_dangling_resolved 0) = [''desc'', ''id'', ''name'', ''other'', ''relations''] \<and>
   ''description'' \<notin> set (fields (term_json store_dangling_resolved 0))"
  by (simp add: json_of_def deref_def term_json_def store_dangling_resolved_def mk_Term_def
      Term_init_def)

text \<open>
  Claim C8 at the scenario of the specification.  \<open>A.parents\<close> read after \<open>_adopt\<close> is the
  list \<open>['B']\<close>, and \<open>lru_cache\<close> stores it under the object \<open>A\<close>.  \<open>_reference\<close> then
  replaces the value of \<open>is_a\<close> by the TermList of the Term \<open>B\<close>.  Read again, \<open>A.parents\<close>
  is still the stored \<open>['B']\<close>, while the body of the property would now return the Term;
  \<open>B.children\<close>, which has no cache, follows the change.
\<close>

theorem parents_cache_is_stale:
  "parents store_AB_adopted 0 = (Inr [Str ''B''], store_AB_cached) \<and>
   reference store_AB_cached = Inr store_AB_cached_resolved \<and>
   parents_body store_AB_cached_resolved 0 = Inr [Ref 1] \<and>
   parents store_AB_cached_resolved 0 = (Inr [Str ''B''], store_AB_cached_resolved) \<and>
   children store_AB_cached 1 = Inr [Str ''A''] \<and>
   children store_AB_cached_resolved 1 = Inr [Ref 0]"
  by (simp add: parents_def parents_body_def children_of_def extend_kinds_def reference_def
      store_AB_cached_def store_AB_cached_resolved_def store_AB_adopted_def
      store_AB_resolved_def mk_Term_def no_relations_def TermList_init_list setitem_def
      fun_eq_iff)

end
